theory Spec2Isabelle
  imports Complex_Main "HOL-Library.AList"
begin

section \<open>Replay buffer of \<^verbatim>\<open>rl/dataset.py\<close>\<close>

subsection \<open>Values, exceptions and the store\<close>

text \<open>
  The exceptions the code can raise. A function that can raise returns
  \<open>py_error + 'a\<close>, with \<open>Inl\<close> for the exception. An exception ends the call: the
  model keeps no state of a call that raised.
\<close>

datatype py_error =
  KeyError | IndexError | ValueError | TypeError | ZeroDivisionError | AssertionError | OSError

text \<open>
  A per-step value: a Python number, a numeric array (a flat vector), a dict with named
  components (an observation with \<^verbatim>\<open>robot_ob\<close> and \<^verbatim>\<open>object_ob\<close>, an action
  \<^verbatim>\<open>OrderedDict(default=ac)\<close>), or a Python list. Floats are idealised as reals.
\<close>

datatype val = Num real | Arr "real list" | Dict "(string \<times> val) list" | Seq "val list"

text \<open>
  One episode slot is the list stored under a key for one episode. The buffer is
  \<^verbatim>\<open>defaultdict(list)\<close>: a dict in insertion order whose missing keys read as the
  empty list. A rollout is a dict that is only read.
\<close>

type_synonym episode = "val list"
type_synonym store = "(string \<times> episode list) list"
type_synonym rollout = "string \<rightharpoonup> val list"

definition dd_get :: "store \<Rightarrow> string \<Rightarrow> episode list" where
  "dd_get b k = (case map_of b k of None \<Rightarrow> [] | Some v \<Rightarrow> v)"

definition has_key :: "store \<Rightarrow> string \<Rightarrow> bool" where
  "has_key b k = (map_of b k \<noteq> None)"

text \<open>Truth value of a Python object, as \<^verbatim>\<open>if rollout["done"][-1]:\<close> takes it.\<close>

fun truthy :: "val \<Rightarrow> py_error + bool" where
  "truthy (Num r) = Inr (r \<noteq> 0)"
| "truthy (Arr xs) =
     (if xs = [] then Inr False
      else if length xs = 1 then Inr (hd xs \<noteq> 0)
      else Inl ValueError)"
| "truthy (Dict kvs) = Inr (kvs \<noteq> [])"
| "truthy (Seq vs) = Inr (vs \<noteq> [])"

subsection \<open>ReplayBuffer\<close>

text \<open>
  The fields of \<^verbatim>\<open>ReplayBuffer\<close>: \<^verbatim>\<open>_size\<close> (the capacity, a count),
  \<^verbatim>\<open>_keys\<close>, \<^verbatim>\<open>_idx\<close>, \<^verbatim>\<open>_current_size\<close>, \<^verbatim>\<open>_new_episode\<close> and
  \<^verbatim>\<open>_buffer\<close>.
\<close>

record replay_buffer =
  rb_size :: nat
  rb_keys :: "string list"
  rb_idx :: nat
  rb_current_size :: nat
  rb_new_episode :: bool
  rb_buffer :: store

definition clear :: "replay_buffer \<Rightarrow> replay_buffer" where
  "clear rb = rb\<lparr>rb_idx := 0, rb_current_size := 0, rb_new_episode := True, rb_buffer := []\<rparr>"

definition ReplayBuffer_init :: "nat \<Rightarrow> string list \<Rightarrow> replay_buffer" where
  "ReplayBuffer_init buffer_size ks =
     clear \<lparr>rb_size = buffer_size, rb_keys = ks, rb_idx = 0, rb_current_size = 0,
            rb_new_episode = True, rb_buffer = []\<rparr>"

text \<open>
  One iteration of the loops over \<^verbatim>\<open>self._keys\<close> in \<^verbatim>\<open>store_episode\<close>. With
  \<^verbatim>\<open>_new_episode\<close> set, the rollout's list becomes a new slot (appended under
  capacity, written at the cursor otherwise). Without it, the rollout's list is
  appended as one element to the slot at the cursor (\<^verbatim>\<open>list.append\<close>), without
  its first entry for the key \<^verbatim>\<open>ob\<close>.
\<close>

definition store_key :: "replay_buffer \<Rightarrow> rollout \<Rightarrow> store \<Rightarrow> string \<Rightarrow> py_error + store" where
  "store_key rb r b k =
     (if rb_new_episode rb then
        (case r k of
           None \<Rightarrow> Inl KeyError
         | Some v \<Rightarrow>
             if rb_current_size rb < rb_size rb then
               Inr (AList.update k (dd_get b k @ [v]) b)
             else if rb_idx rb < length (dd_get b k) then
               Inr (AList.update k ((dd_get b k)[rb_idx rb := v]) b)
             else Inl IndexError)
      else if rb_idx rb < length (dd_get b k) then
        (case r k of
           None \<Rightarrow> Inl KeyError
         | Some v \<Rightarrow>
             Inr (AList.update k
                   ((dd_get b k)[rb_idx rb :=
                      dd_get b k ! rb_idx rb @ [Seq (if k = ''ob'' then drop 1 v else v)]]) b))
      else Inl IndexError)"

fun store_keys :: "replay_buffer \<Rightarrow> rollout \<Rightarrow> string list \<Rightarrow> store \<Rightarrow> py_error + store" where
  "store_keys rb r [] b = Inr b"
| "store_keys rb r (k # ks) b =
     (case store_key rb r b k of Inl e \<Rightarrow> Inl e | Inr b' \<Rightarrow> store_keys rb r ks b')"

text \<open>The assertion of \<^verbatim>\<open>store_episode\<close>, on the slot at the cursor.\<close>

definition check_lengths :: "nat \<Rightarrow> store \<Rightarrow> py_error + unit" where
  "check_lengths i b =
     (if has_key b ''ac'' then
        (if i < length (dd_get b ''ob'') then
           (if i < length (dd_get b ''ac'') then
              (if length (dd_get b ''ob'' ! i) = length (dd_get b ''ac'' ! i) + 1
               then Inr () else Inl AssertionError)
            else Inl IndexError)
         else Inl IndexError)
      else Inr ())"

text \<open>\<^verbatim>\<open>rollout["done"][-1]\<close> as a truth value.\<close>

definition last_done :: "rollout \<Rightarrow> py_error + bool" where
  "last_done r =
     (case r ''done'' of
        None \<Rightarrow> Inl KeyError
      | Some d \<Rightarrow> if d = [] then Inl IndexError else truthy (last d))"

definition store_episode :: "replay_buffer \<Rightarrow> rollout \<Rightarrow> py_error + replay_buffer" where
  "store_episode rb r =
     (case store_keys rb r (rb_keys rb) (rb_buffer rb) of
        Inl e \<Rightarrow> Inl e
      | Inr b \<Rightarrow>
          (case check_lengths (rb_idx rb) b of
             Inl e \<Rightarrow> Inl e
           | Inr _ \<Rightarrow>
               (case last_done r of
                  Inl e \<Rightarrow> Inl e
                | Inr d \<Rightarrow>
                    if d then
                      (if rb_size rb = 0 then Inl ZeroDivisionError
                       else Inr (rb\<lparr>rb_idx := (rb_idx rb + 1) mod rb_size rb,
                                    rb_current_size := rb_current_size rb + 1,
                                    rb_new_episode := True,
                                    rb_buffer := b\<rparr>))
                    else Inr (rb\<lparr>rb_buffer := b\<rparr>))))"

text \<open>A sequence of \<^verbatim>\<open>store_episode\<close> calls; the first exception ends it.\<close>

fun store_episodes :: "replay_buffer \<Rightarrow> rollout list \<Rightarrow> py_error + replay_buffer" where
  "store_episodes rb [] = Inr rb"
| "store_episodes rb (r # rs) =
     (case store_episode rb r of Inl e \<Rightarrow> Inl e | Inr rb' \<Rightarrow> store_episodes rb' rs)"

text \<open>
  \<^verbatim>\<open>state_dict\<close> returns the buffer. \<^verbatim>\<open>load_state_dict\<close> installs the given
  dict and reads \<^verbatim>\<open>len(self._buffer["ac"])\<close>; on a \<^verbatim>\<open>defaultdict\<close> that read
  inserts the key \<^verbatim>\<open>ac\<close> with an empty list when it is missing.
\<close>

definition touch :: "store \<Rightarrow> string \<Rightarrow> store" where
  "touch b k = (if has_key b k then b else b @ [(k, [])])"

definition state_dict :: "replay_buffer \<Rightarrow> store" where
  "state_dict rb = rb_buffer rb"

definition load_state_dict :: "replay_buffer \<Rightarrow> store \<Rightarrow> replay_buffer" where
  "load_state_dict rb sd =
     (let b = touch sd ''ac''
      in rb\<lparr>rb_buffer := b, rb_current_size := length (dd_get b ''ac'')\<rparr>)"

subsection \<open>Sequencing of calls that can raise\<close>

definition ebind :: "py_error + 'a \<Rightarrow> ('a \<Rightarrow> py_error + 'b) \<Rightarrow> py_error + 'b" where
  "ebind m f = (case m of Inl e \<Rightarrow> Inl e | Inr x \<Rightarrow> f x)"

lemma ebind_cong [fundef_cong]:
  "m = m' \<Longrightarrow> (\<And>x. m' = Inr x \<Longrightarrow> f x = f' x) \<Longrightarrow> ebind m f = ebind m' f'"
  by (simp add: ebind_def split: sum.splits)

text \<open>A list comprehension whose element expression can raise.\<close>

fun try_map :: "('a \<Rightarrow> py_error + 'b) \<Rightarrow> 'a list \<Rightarrow> py_error + 'b list" where
  "try_map f [] = Inr []"
| "try_map f (x # xs) =
     ebind (f x) (\<lambda>y. ebind (try_map f xs) (\<lambda>ys. Inr (y # ys)))"

text \<open>\<^verbatim>\<open>xs[i]\<close> for an index that is not negative, and \<^verbatim>\<open>d[k]\<close> on a plain dict.\<close>

definition item :: "'a list \<Rightarrow> nat \<Rightarrow> py_error + 'a" where
  "item xs i = (if i < length xs then Inr (xs ! i) else Inl IndexError)"

definition lookup :: "(string \<times> 'a) list \<Rightarrow> string \<Rightarrow> py_error + 'a" where
  "lookup d k = (case map_of d k of None \<Rightarrow> Inl KeyError | Some v \<Rightarrow> Inr v)"

subsection \<open>The random source\<close>

text \<open>
  The code draws from numpy's process-wide generator. The model passes the source
  explicitly: a list of raw draws, read in the order of the calls (an exhausted list
  yields 0). \<^verbatim>\<open>randint(lo, hi)\<close> is in \<open>[lo, hi)\<close> and raises on an empty range;
  with a size it draws that many, and with size 0 it returns the empty array whatever
  the range. \<^verbatim>\<open>uniform()\<close> is a 53-bit fraction in \<open>[0, 1)\<close>.
\<close>

type_synonym rng = "nat list"

fun next_raw :: "rng \<Rightarrow> nat \<times> rng" where
  "next_raw [] = (0, [])"
| "next_raw (x # g) = (x, g)"

definition randint :: "nat \<Rightarrow> nat \<Rightarrow> rng \<Rightarrow> py_error + (nat \<times> rng)" where
  "randint lo hi g =
     (if hi \<le> lo then Inl ValueError
      else (case next_raw g of (x, g') \<Rightarrow> Inr (lo + x mod (hi - lo), g')))"

fun randint_array :: "nat \<Rightarrow> nat \<Rightarrow> nat \<Rightarrow> rng \<Rightarrow> py_error + (nat list \<times> rng)" where
  "randint_array lo hi 0 g = Inr ([], g)"
| "randint_array lo hi (Suc n) g =
     ebind (randint lo hi g) (\<lambda>(x, g').
     ebind (randint_array lo hi n g') (\<lambda>(xs, g''). Inr (x # xs, g'')))"


subsection \<open>Drawing and gathering transitions\<close>

text \<open>
  \<^verbatim>\<open>t_samples = [np.random.randint(len(episode_batch["ac"][episode_idx])) for ...]\<close>
\<close>

fun draw_t_samples :: "episode list \<Rightarrow> nat list \<Rightarrow> rng \<Rightarrow> py_error + (nat list \<times> rng)" where
  "draw_t_samples ac [] g = Inr ([], g)"
| "draw_t_samples ac (e # es) g =
     ebind (item ac e) (\<lambda>ac_e.
     ebind (randint 0 (length ac_e) g) (\<lambda>(t, g').
     ebind (draw_t_samples ac es g') (\<lambda>(ts, g''). Inr (t # ts, g''))))"

text \<open>\<^verbatim>\<open>episode_batch[key][episode_idx][t]\<close>\<close>

definition step_at :: "episode list \<Rightarrow> nat \<Rightarrow> nat \<Rightarrow> py_error + val" where
  "step_at eps e t = ebind (item eps e) (\<lambda>ep. item ep t)"

definition gather :: "episode list \<Rightarrow> (nat \<times> nat) list \<Rightarrow> py_error + val list" where
  "gather eps ets = try_map (\<lambda>(e, t). step_at eps e t) ets"

text \<open>The loop over \<^verbatim>\<open>episode_batch.keys()\<close> that fills \<^verbatim>\<open>transitions\<close>.\<close>

definition gather_keys :: "store \<Rightarrow> (nat \<times> nat) list \<Rightarrow> py_error + (string \<times> val list) list" where
  "gather_keys b ets = try_map (\<lambda>(k, eps). ebind (gather eps ets) (\<lambda>vs. Inr (k, vs))) b"

text \<open>\<^verbatim>\<open>[episode_batch["ob"][episode_idx][t + 1] for ...]\<close>\<close>

definition gather_next :: "store \<Rightarrow> (nat \<times> nat) list \<Rightarrow> py_error + val list" where
  "gather_next b ets = gather (dd_get b ''ob'') (map (\<lambda>(e, t). (e, t + 1)) ets)"

subsection \<open>Stacking\<close>

text \<open>
  The shape numpy gives a value as an array: a number and a dict (an object) are
  0-dimensional, a list is an array when its elements agree in shape and ragged
  (\<open>None\<close>) otherwise.
\<close>

fun shape :: "val \<Rightarrow> nat list option" where
  "shape (Num r) = Some []"
| "shape (Arr xs) = Some [length xs]"
| "shape (Dict kvs) = Some []"
| "shape (Seq vs) =
     (let ss = map shape vs in
      if ss = [] then Some [0]
      else if hd ss \<noteq> None \<and> (\<forall>s \<in> set ss. s = hd ss) then Some (length vs # the (hd ss))
      else None)"

text \<open>
  \<^verbatim>\<open>np.stack\<close> joins a non-empty sequence of arrays of one shape; the stacked array
  is represented by its rows.
\<close>

definition np_stack :: "val list \<Rightarrow> py_error + val list" where
  "np_stack vs =
     (if vs = [] then Inl ValueError
      else if \<forall>v \<in> set vs. shape v \<noteq> None \<and> shape v = shape (hd vs) then Inr vs
      else Inl ValueError)"

text \<open>\<^verbatim>\<open>v_[sub_key]\<close>\<close>

fun subscript :: "val \<Rightarrow> string \<Rightarrow> py_error + val" where
  "subscript (Dict kvs) k = lookup kvs k"
| "subscript (Arr xs) k = Inl IndexError"
| "subscript (Num r) k = Inl TypeError"
| "subscript (Seq vs) k = Inl TypeError"

datatype column = Stacked "val list" | StackedDict "(string \<times> val list) list"

definition stack_sub_key :: "val list \<Rightarrow> string \<Rightarrow> py_error + (string \<times> val list)" where
  "stack_sub_key v sub_key =
     ebind (try_map (\<lambda>w. subscript w sub_key) v) (\<lambda>col.
     ebind (np_stack col) (\<lambda>s. Inr (sub_key, s)))"

definition stack_column :: "val list \<Rightarrow> py_error + column" where
  "stack_column v =
     (case v of
        [] \<Rightarrow> Inl IndexError
      | v0 # _ \<Rightarrow>
          (case v0 of
             Dict kvs \<Rightarrow>
               ebind (try_map (stack_sub_key v) (map fst kvs)) (\<lambda>cols. Inr (StackedDict cols))
           | _ \<Rightarrow> ebind (np_stack v) (\<lambda>s. Inr (Stacked s))))"

definition stack_transitions ::
  "(string \<times> val list) list \<Rightarrow> py_error + (string \<times> column) list" where
  "stack_transitions tr = try_map (\<lambda>(k, v). ebind (stack_column v) (\<lambda>c. Inr (k, c))) tr"

subsection \<open>RandomSampler\<close>

definition sample_func :: "store \<Rightarrow> nat \<Rightarrow> rng \<Rightarrow> py_error + (string \<times> column) list" where
  "sample_func episode_batch batch_size g =
     (let b = touch episode_batch ''ac'';
          rollout_batch_size = length (dd_get b ''ac'')
      in ebind (randint_array 0 rollout_batch_size batch_size g) (\<lambda>(episode_idxs, g1).
         ebind (draw_t_samples (dd_get b ''ac'') episode_idxs g1) (\<lambda>(t_samples, g2).
         ebind (gather_keys b (zip episode_idxs t_samples)) (\<lambda>transitions.
         ebind (gather_next b (zip episode_idxs t_samples)) (\<lambda>ob_next.
         stack_transitions (AList.update ''ob_next'' ob_next transitions))))))"

text \<open>\<^verbatim>\<open>ReplayBuffer.sample\<close> with a \<^verbatim>\<open>RandomSampler\<close> as its sample function.\<close>

definition sample :: "replay_buffer \<Rightarrow> nat \<Rightarrow> rng \<Rightarrow> py_error + (string \<times> column) list" where
  "sample rb batch_size g = sample_func (rb_buffer rb) batch_size g"

subsection \<open>HERSampler\<close>







subsection \<open>LearnedRewardReplayBuffer\<close>




subsection \<open>Loading demonstrations\<close>

text \<open>
  A directory is the list of its entries in the order \<^verbatim>\<open>os.scandir\<close> yields them; the
  file system gives each path the unpickled dict of the file there, or nothing when the
  file cannot be read. \<^verbatim>\<open>num_demos\<close> is a Python integer.
\<close>

record dir_entry =
  d_path :: string
  d_is_file :: bool

type_synonym file_system = "string \<rightharpoonup> (string \<rightharpoonup> val list)"

definition endswith :: "string \<Rightarrow> string \<Rightarrow> bool" where
  "endswith s suffix =
     (length suffix \<le> length s \<and> drop (length s - length suffix) s = suffix)"

text \<open>The loop over \<^verbatim>\<open>os.scandir(demo_folder)\<close>, with its \<^verbatim>\<open>break\<close>.\<close>

fun scan_demos :: "int \<Rightarrow> dir_entry list \<Rightarrow> string list \<Rightarrow> int \<Rightarrow> string list" where
  "scan_demos num_demos [] demos i = demos"
| "scan_demos num_demos (d # ds) demos i =
     (if d_is_file d \<and> endswith (d_path d) ''pkl'' then
        (if i + 1 > num_demos then demos @ [d_path d]
         else scan_demos num_demos ds (demos @ [d_path d]) (i + 1))
      else
        (if i > num_demos then demos else scan_demos num_demos ds demos i))"

text \<open>The rollout built from one unpickled demonstration.\<close>

definition demo_rollout :: "(string \<rightharpoonup> val list) \<Rightarrow> py_error + rollout" where
  "demo_rollout data =
     (case data ''obs'' of
        None \<Rightarrow> Inl KeyError
      | Some obs \<Rightarrow>
          (case data ''actions'' of
             None \<Rightarrow> Inl KeyError
           | Some actions \<Rightarrow>
               (case data ''rewards'' of
                  None \<Rightarrow> Inl KeyError
                | Some rewards \<Rightarrow>
                    if actions = [] then Inl IndexError
                    else Inr [''ob'' \<mapsto> obs,
                              ''ac'' \<mapsto> map (\<lambda>ac. Dict [(''default'', ac)]) actions,
                              ''rew'' \<mapsto> rewards,
                              ''done'' \<mapsto> (replicate (length actions) (Num 0))
                                             [length actions - 1 := Num 1]])))"

definition load_demo :: "file_system \<Rightarrow> replay_buffer \<Rightarrow> string \<Rightarrow> py_error + replay_buffer" where
  "load_demo fs rb path =
     (case fs path of
        None \<Rightarrow> Inl OSError
      | Some data \<Rightarrow> ebind (demo_rollout data) (store_episode rb))"

fun load_demos :: "file_system \<Rightarrow> replay_buffer \<Rightarrow> string list \<Rightarrow> py_error + replay_buffer" where
  "load_demos fs rb [] = Inr rb"
| "load_demos fs rb (path # paths) = ebind (load_demo fs rb path) (\<lambda>rb'. load_demos fs rb' paths)"

definition load_demonstrations ::
  "file_system \<Rightarrow> replay_buffer \<Rightarrow> dir_entry list \<Rightarrow> int \<Rightarrow> py_error + replay_buffer" where
  "load_demonstrations fs rb demo_folder num_demos =
     load_demos fs rb (scan_demos num_demos demo_folder [] 0)"

section \<open>Properties of the store\<close>

text \<open>
  The ingestion contract of a rollout: \<^verbatim>\<open>ob\<close> has one entry more than \<^verbatim>\<open>ac\<close>, and
  \<^verbatim>\<open>done\<close> and \<^verbatim>\<open>rew\<close> (when the rollout has it) have as many as \<^verbatim>\<open>ac\<close>. The
  lengths of the stored episodes: slot by slot, the same equations on the buffer.
\<close>

definition ingestion_contract :: "rollout \<Rightarrow> bool" where
  "ingestion_contract r =
     (case r ''ob'' of None \<Rightarrow> False | Some ob \<Rightarrow>
      (case r ''ac'' of None \<Rightarrow> False | Some ac \<Rightarrow>
      (case r ''done'' of None \<Rightarrow> False | Some d \<Rightarrow>
         length ob = length ac + 1 \<and> length d = length ac \<and>
         (case r ''rew'' of None \<Rightarrow> True | Some w \<Rightarrow> length w = length ac))))"

definition episode_lengths_ok :: "store \<Rightarrow> bool" where
  "episode_lengths_ok b =
     (\<forall>i<length (dd_get b ''ac'').
        i < length (dd_get b ''ob'') \<and>
        length (dd_get b ''ob'' ! i) = length (dd_get b ''ac'' ! i) + 1 \<and>
        (has_key b ''rew'' \<longrightarrow>
           i < length (dd_get b ''rew'') \<and>
           length (dd_get b ''rew'' ! i) = length (dd_get b ''ac'' ! i)) \<and>
        (has_key b ''done'' \<longrightarrow>
           i < length (dd_get b ''done'') \<and>
           length (dd_get b ''done'' ! i) = length (dd_get b ''ac'' ! i)))"

text \<open>
  What every call of \<^verbatim>\<open>store_episode\<close> keeps on a buffer that started empty: the
  tracked keys hold the same number of slots, no other key is present, the stored
  lengths agree, and the cursor stays within the slots.
\<close>

definition store_inv :: "nat \<Rightarrow> string list \<Rightarrow> replay_buffer \<Rightarrow> bool" where
  "store_inv N ks rb =
     (rb_size rb = N \<and> rb_keys rb = ks \<and> rb_new_episode rb \<and>
      (\<forall>k\<in>set ks. length (dd_get (rb_buffer rb) k) = length (dd_get (rb_buffer rb) ''ac'')) \<and>
      (\<forall>k. has_key (rb_buffer rb) k \<longrightarrow> k \<in> set ks) \<and>
      episode_lengths_ok (rb_buffer rb) \<and>
      rb_idx rb \<le> length (dd_get (rb_buffer rb) ''ac'') \<and>
      (0 < N \<longrightarrow> rb_idx rb < N) \<and>
      min (rb_current_size rb) N \<le> length (dd_get (rb_buffer rb) ''ac''))"


text \<open>
  The slots of one key after one iteration of the loop over the keys, and the guard
  under which that iteration does not raise.
\<close>

definition slot_write :: "replay_buffer \<Rightarrow> string \<Rightarrow> val list \<Rightarrow> episode list \<Rightarrow> episode list" where
  "slot_write rb k v slots =
     (if rb_new_episode rb then
        (if rb_current_size rb < rb_size rb then slots @ [v] else slots[rb_idx rb := v])
      else slots[rb_idx rb := slots ! rb_idx rb @ [Seq (if k = ''ob'' then drop 1 v else v)]])"

definition slot_ok :: "replay_buffer \<Rightarrow> episode list \<Rightarrow> bool" where
  "slot_ok rb slots =
     ((rb_new_episode rb \<and> rb_current_size rb < rb_size rb) \<or> rb_idx rb < length slots)"


text \<open>
  The buffer after the episodes \<open>rs\<close>, each closed by its last \<^verbatim>\<open>done\<close> flag, were
  stored in a buffer of capacity \<open>N\<close> that started empty: episode \<open>i\<close> of the last
  \<open>N\<close> sits in slot \<open>i mod N\<close>.
\<close>

definition ring_inv :: "nat \<Rightarrow> string list \<Rightarrow> rollout list \<Rightarrow> replay_buffer \<Rightarrow> bool" where
  "ring_inv N ks rs rb =
     (rb_size rb = N \<and> rb_keys rb = ks \<and> rb_new_episode rb \<and>
      rb_current_size rb = length rs \<and> rb_idx rb = length rs mod N \<and>
      (\<forall>k\<in>set ks. length (dd_get (rb_buffer rb) k) = min (length rs) N \<and>
         (\<forall>i<length rs. length rs \<le> i + N \<longrightarrow>
            (rs ! i) k = Some (dd_get (rb_buffer rb) k ! (i mod N)))))"




subsection \<open>Properties of sampling\<close>





subsection \<open>Properties of hindsight relabeling\<close>




subsection \<open>Properties of loading\<close>

text \<open>The paths of the demonstration files of a directory, in the order of its entries.\<close>

definition demo_files :: "dir_entry list \<Rightarrow> string list" where
  "demo_files folder =
     map d_path (filter (\<lambda>d. d_is_file d \<and> endswith (d_path d) ''pkl'') folder)"

subsection \<open>Example inputs\<close>

text \<open>A rollout of one step, closed by its \<^verbatim>\<open>done\<close> flag, and the keys it has.\<close>

definition ex_keys :: "string list" where
  "ex_keys = [''ob'', ''ac'', ''rew'', ''done'']"

definition ex_rollout :: "real \<Rightarrow> rollout" where
  "ex_rollout x =
     [''ob'' \<mapsto> [Num x, Num (x + 1)],
      ''ac'' \<mapsto> [Dict [(''default'', Num x)]],
      ''rew'' \<mapsto> [Num 0],
      ''done'' \<mapsto> [Num 1]]"

text \<open>The store after three such episodes went into a buffer of capacity 2.\<close>

definition ex_store :: store where
  "ex_store =
     [(''ob'', [[Num 3, Num 4], [Num 2, Num 3]]),
      (''ac'', [[Dict [(''default'', Num 3)]], [Dict [(''default'', Num 2)]]]),
      (''rew'', [[Num 0], [Num 0]]),
      (''done'', [[Num 1], [Num 1]])]"

text \<open>A rollout of one step whose \<^verbatim>\<open>done\<close> flag is not set.\<close>

definition open_rollout :: rollout where
  "open_rollout = [''ob'' \<mapsto> [Num 0, Num 1], ''ac'' \<mapsto> [Num 0], ''done'' \<mapsto> [Num 0]]"


text \<open>
  A directory with four demonstration files and one other file, and the file system that
  holds a demonstration of one step in each of the four.
\<close>

definition ex_demo :: "real \<Rightarrow> (string \<rightharpoonup> val list)" where
  "ex_demo x = [''obs'' \<mapsto> [Num x, Num (x + 1)], ''actions'' \<mapsto> [Num x], ''rewards'' \<mapsto> [Num 0]]"

definition ex_folder :: "dir_entry list" where
  "ex_folder =
     [\<lparr>d_path = ''a.pkl'', d_is_file = True\<rparr>,
      \<lparr>d_path = ''notes.txt'', d_is_file = True\<rparr>,
      \<lparr>d_path = ''b.pkl'', d_is_file = True\<rparr>,
      \<lparr>d_path = ''c.pkl'', d_is_file = True\<rparr>,
      \<lparr>d_path = ''d.pkl'', d_is_file = True\<rparr>]"

definition ex_fs :: file_system where
  "ex_fs = [''a.pkl'' \<mapsto> ex_demo 1, ''b.pkl'' \<mapsto> ex_demo 2, ''c.pkl'' \<mapsto> ex_demo 3,
            ''d.pkl'' \<mapsto> ex_demo 4]"









section \<open>Basic facts\<close>

lemma ebind_Inr [simp]: "ebind (Inr x) f = f x"
  by (simp add: ebind_def)

lemma ebind_Inl [simp]: "ebind (Inl e) f = Inl e"
  by (simp add: ebind_def)

lemma ebind_eq_Inr: "ebind m f = Inr y \<longleftrightarrow> (\<exists>x. m = Inr x \<and> f x = Inr y)"
  by (cases m) simp_all

lemma dd_get_update: "dd_get (AList.update k v b) k' = (if k' = k then v else dd_get b k')"
  by (simp add: dd_get_def update_conv')

lemma has_key_update: "has_key (AList.update k v b) k' = (k' = k \<or> has_key b k')"
  by (simp add: has_key_def update_conv')

lemma map_of_touch:
  "map_of (touch b k) k' =
     (case map_of b k' of None \<Rightarrow> (if k' = k then Some [] else None) | Some v \<Rightarrow> Some v)"
  by (simp add: touch_def has_key_def map_add_def split: option.splits)

lemma dd_get_touch: "dd_get (touch b k) k' = dd_get b k'"
  by (simp add: dd_get_def map_of_touch split: option.splits)


section \<open>Checkpoints\<close>

text \<open>
  C8. For every buffer \<open>B\<close>, \<^verbatim>\<open>load_state_dict(B.state_dict())\<close> on any buffer gives a
  buffer whose episodes under every key are those of \<open>B\<close>, and whose
  \<^verbatim>\<open>_current_size\<close> is the number of action sequences loaded,
  \<^verbatim>\<open>len(buffer["ac"])\<close>.
\<close>

theorem load_state_dict_round_trip:
  "dd_get (rb_buffer (load_state_dict rb (state_dict B))) k = dd_get (rb_buffer B) k \<and>
   rb_current_size (load_state_dict rb (state_dict B)) = length (dd_get (rb_buffer B) ''ac'')"
  by (simp add: load_state_dict_def state_dict_def Let_def dd_get_touch)

text \<open>
  C10. \<^verbatim>\<open>load_state_dict(d)\<close> replaces the contents by \<open>d\<close> and sets
  \<^verbatim>\<open>_current_size\<close> to \<^verbatim>\<open>len(d["ac"])\<close>; the cursor \<^verbatim>\<open>_idx\<close>, the flag
  \<^verbatim>\<open>_new_episode\<close>, the capacity and the keys stay as they were, so the cursor of a
  freshly constructed buffer is still 0 after a restore, whatever was restored.
\<close>

theorem load_state_dict_frame:
  "rb_idx (load_state_dict rb d) = rb_idx rb \<and>
   rb_new_episode (load_state_dict rb d) = rb_new_episode rb \<and>
   rb_size (load_state_dict rb d) = rb_size rb \<and>
   rb_keys (load_state_dict rb d) = rb_keys rb \<and>
   dd_get (rb_buffer (load_state_dict rb d)) k = dd_get d k \<and>
   rb_current_size (load_state_dict rb d) = length (dd_get d ''ac'') \<and>
   rb_idx (load_state_dict (ReplayBuffer_init n ks) d) = 0"
  by (simp add: load_state_dict_def Let_def dd_get_touch ReplayBuffer_init_def clear_def)

section \<open>Storing episodes\<close>

subsection \<open>One call\<close>

lemma store_key_Inr:
  assumes "store_key rb r b k = Inr b'"
  shows "\<exists>v. r k = Some v \<and> slot_ok rb (dd_get b k) \<and>
           b' = AList.update k (slot_write rb k v (dd_get b k)) b"
  using assms
  by (auto simp: store_key_def slot_write_def slot_ok_def split: if_splits option.splits)

lemma store_keys_Inr:
  assumes "store_keys rb r ks b = Inr b'" and "distinct ks"
  shows "(\<forall>k\<in>set ks. \<exists>v. r k = Some v \<and> slot_ok rb (dd_get b k) \<and>
            dd_get b' k = slot_write rb k v (dd_get b k)) \<and>
         (\<forall>k. k \<notin> set ks \<longrightarrow> dd_get b' k = dd_get b k) \<and>
         (\<forall>k. has_key b' k = (k \<in> set ks \<or> has_key b k))"
  using assms
proof (induction ks arbitrary: b)
  case Nil
  then show ?case by simp
next
  case (Cons k ks)
  from Cons.prems(1) obtain b1 where k1: "store_key rb r b k = Inr b1"
    and rest: "store_keys rb r ks b1 = Inr b'"
    by (auto split: sum.splits)
  from store_key_Inr[OF k1] obtain v where v: "r k = Some v" and sok: "slot_ok rb (dd_get b k)"
    and b1: "b1 = AList.update k (slot_write rb k v (dd_get b k)) b" by blast
  from Cons.prems(2) have d: "distinct ks" and nin: "k \<notin> set ks" by auto
  note IH = Cons.IH[OF rest d]
  have a: "dd_get b' k = slot_write rb k v (dd_get b k)"
    using IH nin by (simp add: b1 dd_get_update)
  have b: "\<forall>k'\<in>set ks. \<exists>v. r k' = Some v \<and> slot_ok rb (dd_get b k') \<and>
            dd_get b' k' = slot_write rb k' v (dd_get b k')"
  proof
    fix k' assume k': "k' \<in> set ks"
    with nin have neq: "k' \<noteq> k" by auto
    then have "dd_get b1 k' = dd_get b k'" by (simp add: b1 dd_get_update)
    with IH k' show "\<exists>v. r k' = Some v \<and> slot_ok rb (dd_get b k') \<and>
            dd_get b' k' = slot_write rb k' v (dd_get b k')" by auto
  qed
  have c: "\<forall>k'. k' \<notin> set (k # ks) \<longrightarrow> dd_get b' k' = dd_get b k'"
    using IH by (simp add: b1 dd_get_update)
  have e: "\<forall>k'. has_key b' k' = (k' \<in> set (k # ks) \<or> has_key b k')"
    using IH by (auto simp: b1 has_key_update)
  show ?case using a b c e v sok by simp
qed

lemma store_episode_Inr:
  assumes "store_episode rb r = Inr rb'"
  shows "\<exists>b' d. store_keys rb r (rb_keys rb) (rb_buffer rb) = Inr b' \<and>
           check_lengths (rb_idx rb) b' = Inr () \<and> last_done r = Inr d \<and>
           (d \<longrightarrow> 0 < rb_size rb) \<and>
           rb' = (if d then rb\<lparr>rb_idx := (rb_idx rb + 1) mod rb_size rb,
                                 rb_current_size := rb_current_size rb + 1,
                                 rb_new_episode := True, rb_buffer := b'\<rparr>
                  else rb\<lparr>rb_buffer := b'\<rparr>)"
  using assms by (auto simp: store_episode_def split: sum.splits if_splits)

lemma store_episodes_snoc:
  "store_episodes rb (rs @ [r]) =
     (case store_episodes rb rs of Inl e \<Rightarrow> Inl e | Inr rb' \<Rightarrow> store_episode rb' r)"
  by (induction rs arbitrary: rb) (auto split: sum.splits)

lemma store_inv_init: "store_inv N ks (ReplayBuffer_init N ks)"
  by (simp add: store_inv_def ReplayBuffer_init_def clear_def dd_get_def has_key_def
      episode_lengths_ok_def)

lemma store_key_Inl: "store_key rb r b k = Inl e \<Longrightarrow> e = KeyError \<or> e = IndexError"
  by (auto simp: store_key_def split: if_splits option.splits)

lemma store_keys_Inl: "store_keys rb r ks b = Inl e \<Longrightarrow> e = KeyError \<or> e = IndexError"
  by (induction ks arbitrary: b) (auto split: sum.splits dest: store_key_Inl)

lemma truthy_Inl: "truthy v = Inl e \<Longrightarrow> e = ValueError"
  by (cases v) (auto split: if_splits)

lemma last_done_Inl: "last_done r = Inl e \<Longrightarrow> e \<noteq> AssertionError"
  by (auto simp: last_done_def split: option.splits if_splits dest: truthy_Inl)

text \<open>The buffer after the loop over the keys, for a new episode.\<close>

lemma store_keys_new:
  assumes inv: "store_inv N ks rb" and dist: "distinct ks"
    and ob: "''ob'' \<in> set ks" and ac: "''ac'' \<in> set ks"
    and con: "ingestion_contract r"
    and sk: "store_keys rb r ks (rb_buffer rb) = Inr b'"
  shows "(\<forall>k\<in>set ks. length (dd_get b' k) = length (dd_get b' ''ac'')) \<and>
         (\<forall>k. has_key b' k \<longrightarrow> k \<in> set ks) \<and>
         episode_lengths_ok b' \<and>
         length (dd_get b' ''ac'') =
           (if rb_current_size rb < N then Suc (length (dd_get (rb_buffer rb) ''ac''))
            else length (dd_get (rb_buffer rb) ''ac'')) \<and>
         (\<not> rb_current_size rb < N \<longrightarrow> rb_idx rb < length (dd_get (rb_buffer rb) ''ac''))"
proof -
  let ?b = "rb_buffer rb"
  let ?n = "length (dd_get ?b ''ac'')"
  from inv have sz: "rb_size rb = N" and ne: "rb_new_episode rb"
    and al: "\<forall>k\<in>set ks. length (dd_get ?b k) = ?n"
    and hk: "\<forall>k. has_key ?b k \<longrightarrow> k \<in> set ks"
    and ok: "episode_lengths_ok ?b"
    by (auto simp: store_inv_def)
  note S = store_keys_Inr[OF sk dist]
  have sl: "\<exists>v. r k = Some v \<and>
       dd_get b' k = (if rb_current_size rb < N then dd_get ?b k @ [v]
                      else (dd_get ?b k)[rb_idx rb := v])" if "k \<in> set ks" for k
  proof -
    from S that obtain v where "r k = Some v"
      "dd_get b' k = slot_write rb k v (dd_get ?b k)" by blast
    then show ?thesis using ne sz by (simp add: slot_write_def)
  qed
  have hk': "\<forall>k. has_key b' k \<longrightarrow> k \<in> set ks" using S hk by auto
  have inr: "rb_idx rb < ?n" if "\<not> rb_current_size rb < N"
    using S ac that sz by (auto simp: slot_ok_def)
  obtain vob where vob: "r ''ob'' = Some vob" and
    bob: "dd_get b' ''ob'' = (if rb_current_size rb < N then dd_get ?b ''ob'' @ [vob]
                      else (dd_get ?b ''ob'')[rb_idx rb := vob])"
    using sl[OF ob] by blast
  obtain vac where vac: "r ''ac'' = Some vac" and
    bac: "dd_get b' ''ac'' = (if rb_current_size rb < N then dd_get ?b ''ac'' @ [vac]
                      else (dd_get ?b ''ac'')[rb_idx rb := vac])"
    using sl[OF ac] by blast
  have n': "length (dd_get b' ''ac'') = (if rb_current_size rb < N then Suc ?n else ?n)"
    using bac by simp
  have al': "\<forall>k\<in>set ks. length (dd_get b' k) = length (dd_get b' ''ac'')"
  proof
    fix k assume k: "k \<in> set ks"
    from sl[OF k] obtain v where
      "dd_get b' k = (if rb_current_size rb < N then dd_get ?b k @ [v]
                      else (dd_get ?b k)[rb_idx rb := v])" by blast
    then show "length (dd_get b' k) = length (dd_get b' ''ac'')"
      using al k n' by simp
  qed
  have cl: "length vob = length vac + 1" using con vob vac
    by (simp add: ingestion_contract_def split: option.splits)
  have slot: "i < length (dd_get b' k) \<and> length (dd_get b' k ! i) = length (dd_get b' ''ac'' ! i)"
    if k: "k = ''rew'' \<or> k = ''done''" and h: "has_key b' k"
      and i: "i < length (dd_get b' ''ac'')" for k i
  proof -
    from h hk' have kin: "k \<in> set ks" by blast
    from sl[OF kin] obtain v where v: "r k = Some v" and
      bk: "dd_get b' k = (if rb_current_size rb < N then dd_get ?b k @ [v]
                      else (dd_get ?b k)[rb_idx rb := v])" by blast
    have lv: "length v = length vac" using con v vac k vob
      by (auto simp: ingestion_contract_def split: option.splits)
    have lk: "length (dd_get ?b k) = ?n" using al kin by blast
    have hb: "has_key ?b k" if "i < ?n"
    proof -
      from that lk have "dd_get ?b k \<noteq> []" by auto
      then show ?thesis by (auto simp: dd_get_def has_key_def split: option.splits)
    qed
    have old: "length (dd_get ?b k ! i) = length (dd_get ?b ''ac'' ! i)" if "i < ?n"
      using ok that hb[OF that] k by (auto simp: episode_lengths_ok_def)
    have i': "i < length (dd_get b' k)" using al' kin i by simp
    show ?thesis
    proof (cases "rb_current_size rb < N")
      case True
      then show ?thesis using i' bk bac lv lk old i
        by (auto simp: nth_append)
    next
      case False
      then show ?thesis using i' bk bac lv lk old i inr
        by (auto simp: nth_list_update)
    qed
  qed
  have obslot: "i < length (dd_get b' ''ob'') \<and>
      length (dd_get b' ''ob'' ! i) = length (dd_get b' ''ac'' ! i) + 1"
    if i: "i < length (dd_get b' ''ac'')" for i
  proof -
    have lk: "length (dd_get ?b ''ob'') = ?n" using al ob by blast
    have old: "length (dd_get ?b ''ob'' ! i) = length (dd_get ?b ''ac'' ! i) + 1" if "i < ?n"
      using ok that by (auto simp: episode_lengths_ok_def)
    have i': "i < length (dd_get b' ''ob'')" using al' ob i by simp
    show ?thesis
    proof (cases "rb_current_size rb < N")
      case True
      then show ?thesis using i' bob bac cl lk old i
        by (auto simp: nth_append)
    next
      case False
      then show ?thesis using i' bob bac cl lk old i inr
        by (auto simp: nth_list_update)
    qed
  qed
  have ok': "episode_lengths_ok b'"
    unfolding episode_lengths_ok_def using obslot slot by blast
  show ?thesis using al' hk' ok' n' inr by simp
qed

lemma check_lengths_ok:
  assumes "episode_lengths_ok b"
  shows "check_lengths i b \<noteq> Inl AssertionError"
    and "i < length (dd_get b ''ac'') \<Longrightarrow> check_lengths i b = Inr ()"
  using assms by (auto simp: check_lengths_def episode_lengths_ok_def)

lemma store_episode_inv:
  assumes inv: "store_inv N ks rb" and dist: "distinct ks"
    and ob: "''ob'' \<in> set ks" and ac: "''ac'' \<in> set ks"
    and con: "ingestion_contract r"
  shows "store_episode rb r \<noteq> Inl AssertionError"
    and "store_episode rb r = Inr rb' \<Longrightarrow> store_inv N ks rb'"
    and "0 < N \<Longrightarrow> \<forall>k\<in>set ks. r k \<noteq> None \<Longrightarrow> last_done r = Inr d \<Longrightarrow>
           \<exists>rb'. store_episode rb r = Inr rb'"
proof -
  from inv have sz: "rb_size rb = N" and ks: "rb_keys rb = ks" and ne: "rb_new_episode rb"
    and ix: "rb_idx rb \<le> length (dd_get (rb_buffer rb) ''ac'')"
    and ixN: "0 < N \<longrightarrow> rb_idx rb < N"
    and mn: "min (rb_current_size rb) N \<le> length (dd_get (rb_buffer rb) ''ac'')"
    and al: "\<forall>k\<in>set ks. length (dd_get (rb_buffer rb) k) = length (dd_get (rb_buffer rb) ''ac'')"
    by (auto simp: store_inv_def)
  show "store_episode rb r \<noteq> Inl AssertionError"
  proof (cases "store_keys rb r ks (rb_buffer rb)")
    case (Inl e)
    then show ?thesis using store_keys_Inl[OF Inl] ks by (auto simp: store_episode_def)
  next
    case (Inr b')
    from store_keys_new[OF inv dist ob ac con Inr] have "episode_lengths_ok b'" by simp
    from check_lengths_ok(1)[OF this] show ?thesis
      using Inr ks last_done_Inl[of r]
      by (auto simp: store_episode_def split: sum.splits)
  qed
  show "store_inv N ks rb'" if st: "store_episode rb r = Inr rb'"
  proof -
    from store_episode_Inr[OF st] obtain b' d where
      sk: "store_keys rb r (rb_keys rb) (rb_buffer rb) = Inr b'" and
      ck: "check_lengths (rb_idx rb) b' = Inr ()" and
      pos: "d \<longrightarrow> 0 < rb_size rb" and
      rb': "rb' = (if d then rb\<lparr>rb_idx := (rb_idx rb + 1) mod rb_size rb,
                                 rb_current_size := rb_current_size rb + 1,
                                 rb_new_episode := True, rb_buffer := b'\<rparr>
                  else rb\<lparr>rb_buffer := b'\<rparr>)"
      by blast
    note K = store_keys_new[OF inv dist ob ac con sk[unfolded ks]]
    have hk: "has_key b' ''ac''" using store_keys_Inr[OF sk[unfolded ks] dist] ac by simp
    from ck hk have ilt: "rb_idx rb < length (dd_get b' ''ac'')"
      by (auto simp: check_lengths_def split: if_splits)
    show ?thesis
    proof (cases d)
      case True
      with pos sz have N: "0 < N" by simp
      have a: "(rb_idx rb + 1) mod N \<le> length (dd_get b' ''ac'')"
        using ilt mod_le_divisor[OF N] mod_less_eq_dividend[of "rb_idx rb + 1" N]
        by linarith
      have b: "min (rb_current_size rb + 1) N \<le> length (dd_get b' ''ac'')"
        using K mn by (auto split: if_splits)
      show ?thesis using True rb' K sz ks a b N
        by (simp add: store_inv_def)
    next
      case False
      have b: "min (rb_current_size rb) N \<le> length (dd_get b' ''ac'')"
        using K mn by (auto split: if_splits)
      show ?thesis using False rb' K sz ks ne ilt ixN b
        by (simp add: store_inv_def)
    qed
  qed
  show "\<exists>rb'. store_episode rb r = Inr rb'"
    if N: "0 < N" and pres: "\<forall>k\<in>set ks. r k \<noteq> None" and ld: "last_done r = Inr d"
  proof -
    have sok: "slot_ok rb (dd_get b k)" if "length (dd_get b k) = length (dd_get (rb_buffer rb) ''ac'')" for b k
      using that ne sz mn ixN N by (auto simp: slot_ok_def min_def split: if_splits)
    have "\<exists>b'. store_keys rb r ks' b = Inr b'" 
      if "set ks' \<subseteq> set ks" "distinct ks'"
         "\<forall>k\<in>set ks'. length (dd_get b k) = length (dd_get (rb_buffer rb) ''ac'')" for ks' b
      using that
    proof (induction ks' arbitrary: b)
      case Nil
      then show ?case by simp
    next
      case (Cons k ks')
      from Cons.prems(1) pres obtain v where v: "r k = Some v" by auto
      have so: "slot_ok rb (dd_get b k)" using sok Cons.prems(3) by simp
      have "\<exists>b1. store_key rb r b k = Inr b1 \<and> (\<forall>k'. k' \<noteq> k \<longrightarrow> dd_get b1 k' = dd_get b k')"
        using v so ne by (auto simp: store_key_def slot_ok_def dd_get_update)
      then obtain b1 where b1: "store_key rb r b k = Inr b1"
        and oth: "\<forall>k'. k' \<noteq> k \<longrightarrow> dd_get b1 k' = dd_get b k'" by blast
      have "\<forall>k'\<in>set ks'. length (dd_get b1 k') = length (dd_get (rb_buffer rb) ''ac'')"
        using Cons.prems(2,3) oth by auto
      with Cons.IH[of b1] Cons.prems(1,2) obtain b' where "store_keys rb r ks' b1 = Inr b'"
        by auto
      then show ?case using b1 by simp
    qed
    from this[of ks "rb_buffer rb"] dist al obtain b' where
      sk: "store_keys rb r ks (rb_buffer rb) = Inr b'" by auto
    note K = store_keys_new[OF inv dist ob ac con sk]
    have "rb_idx rb < length (dd_get b' ''ac'')" using K ix by (auto split: if_splits)
    with check_lengths_ok(2)[of b' "rb_idx rb"] K have "check_lengths (rb_idx rb) b' = Inr ()"
      by simp
    then show ?thesis using sk ks ld N sz by (simp add: store_episode_def)
  qed
qed

lemma store_episodes_inv:
  assumes "store_inv N ks rb" and dist: "distinct ks"
    and ob: "''ob'' \<in> set ks" and ac: "''ac'' \<in> set ks"
    and "\<forall>r\<in>set rs. ingestion_contract r"
  shows "store_episodes rb rs \<noteq> Inl AssertionError \<and>
         (\<forall>rb'. store_episodes rb rs = Inr rb' \<longrightarrow> store_inv N ks rb') \<and>
         (0 < N \<and> (\<forall>r\<in>set rs. (\<forall>k\<in>set ks. r k \<noteq> None) \<and> (\<exists>d. last_done r = Inr d)) \<longrightarrow>
            (\<exists>rb'. store_episodes rb rs = Inr rb'))"
  using assms(1,5)
proof (induction rs arbitrary: rb)
  case Nil
  then show ?case by simp
next
  case (Cons r rs)
  from Cons.prems(2) have con: "ingestion_contract r"
    and rest: "\<forall>r\<in>set rs. ingestion_contract r" by auto
  note E = store_episode_inv[OF Cons.prems(1) dist ob ac con]
  show ?case
  proof (cases "store_episode rb r")
    case (Inl e)
    have "\<not> (0 < N \<and> (\<forall>k\<in>set ks. r k \<noteq> None) \<and> (\<exists>d. last_done r = Inr d))"
      using E(3) Inl by auto
    then show ?thesis using Inl E(1) by auto
  next
    case (Inr rb1)
    from E(2)[OF Inr] have "store_inv N ks rb1" .
    from Cons.IH[OF this rest] show ?thesis using Inr by auto
  qed
qed

subsection \<open>The ring of episodes\<close>

lemma mod_neq_window:
  fixes i m N :: nat
  assumes "i < m" "m < i + N"
  shows "i mod N \<noteq> m mod N"
proof
  assume eq: "i mod N = m mod N"
  have "i \<le> m" using assms(1) by simp
  then have "N dvd m - i" using eq mod_eq_dvd_iff_nat[of i m N] by simp
  moreover have "0 < m - i" "m - i < N" using assms by auto
  ultimately show False using nat_dvd_not_less by blast
qed

lemma ring_inv_step:
  assumes inv: "ring_inv N ks rs rb" and dist: "distinct ks"
    and dn: "last_done r = Inr True" and st: "store_episode rb r = Inr rb'"
  shows "ring_inv N ks (rs @ [r]) rb'"
proof -
  let ?m = "length rs"
  from store_episode_Inr[OF st] dn obtain b' where
    sk: "store_keys rb r (rb_keys rb) (rb_buffer rb) = Inr b'" and
    pos: "0 < rb_size rb" and
    rb': "rb' = rb\<lparr>rb_idx := (rb_idx rb + 1) mod rb_size rb,
                    rb_current_size := rb_current_size rb + 1,
                    rb_new_episode := True, rb_buffer := b'\<rparr>"
    by auto
  from inv have sz: "rb_size rb = N" and ks: "rb_keys rb = ks" and ne: "rb_new_episode rb"
    and cs: "rb_current_size rb = ?m" and ix: "rb_idx rb = ?m mod N"
    by (auto simp: ring_inv_def)
  from pos sz have N: "0 < N" by simp
  have slots: "\<forall>k\<in>set ks. \<exists>v. r k = Some v \<and>
      dd_get b' k = (if ?m < N then dd_get (rb_buffer rb) k @ [v]
                     else (dd_get (rb_buffer rb) k)[?m mod N := v])"
  proof
    fix k assume "k \<in> set ks"
    with store_keys_Inr[OF sk] dist ks obtain v where
      "r k = Some v" "dd_get b' k = slot_write rb k v (dd_get (rb_buffer rb) k)" by blast
    then show "\<exists>v. r k = Some v \<and>
      dd_get b' k = (if ?m < N then dd_get (rb_buffer rb) k @ [v]
                     else (dd_get (rb_buffer rb) k)[?m mod N := v])"
      using ne cs sz ix by (simp add: slot_write_def)
  qed
  have per_key: "length (dd_get b' k) = min (Suc ?m) N \<and>
         (\<forall>i<Suc ?m. Suc ?m \<le> i + N \<longrightarrow>
            ((rs @ [r]) ! i) k = Some (dd_get b' k ! (i mod N)))" if k: "k \<in> set ks" for k
  proof -
    from slots k obtain v where v: "r k = Some v" and
      bk: "dd_get b' k = (if ?m < N then dd_get (rb_buffer rb) k @ [v]
                     else (dd_get (rb_buffer rb) k)[?m mod N := v])" by blast
    from inv k have len: "length (dd_get (rb_buffer rb) k) = min ?m N"
      and old: "\<forall>i<?m. ?m \<le> i + N \<longrightarrow> (rs ! i) k = Some (dd_get (rb_buffer rb) k ! (i mod N))"
      by (auto simp: ring_inv_def)
    have l: "length (dd_get b' k) = min (Suc ?m) N" using len bk by auto
    have c: "((rs @ [r]) ! i) k = Some (dd_get b' k ! (i mod N))"
      if i: "i < Suc ?m" and w: "Suc ?m \<le> i + N" for i
    proof (cases "i = ?m")
      case True
      show ?thesis
      proof (cases "?m < N")
        case True
        with \<open>i = ?m\<close> show ?thesis using bk len v by (simp add: nth_append)
      next
        case False
        have "?m mod N < length (dd_get (rb_buffer rb) k)" using len False N by simp
        with \<open>i = ?m\<close> False show ?thesis using bk v by simp
      qed
    next
      case False
      with i have im: "i < ?m" by simp
      from w have w': "?m \<le> i + N" by simp
      from old im w' have o: "(rs ! i) k = Some (dd_get (rb_buffer rb) k ! (i mod N))" by blast
      have ne: "i mod N \<noteq> ?m mod N" using mod_neq_window[of i ?m N] im w by simp
      have inb: "i mod N < length (dd_get (rb_buffer rb) k)"
      proof (cases "?m < N")
        case True then show ?thesis using len im by simp
      next
        case False then show ?thesis using len N by simp
      qed
      show ?thesis
      proof (cases "?m < N")
        case True
        then have "i mod N = i" using im by simp
        with o inb True bk im show ?thesis by (simp add: nth_append)
      next
        case False
        with o ne inb bk im show ?thesis by (simp add: nth_append)
      qed
    qed
    show ?thesis using l c by blast
  qed
  have idx: "rb_idx rb' = Suc ?m mod N"
    using rb' ix sz by (simp add: mod_Suc_eq)
  show ?thesis
    unfolding ring_inv_def using per_key idx rb' sz ks cs by simp
qed

lemma ring_inv_init: "ring_inv N ks [] (ReplayBuffer_init N ks)"
  by (simp add: ring_inv_def ReplayBuffer_init_def clear_def dd_get_def)

lemma ring_inv_run:
  assumes "distinct ks" and "\<forall>r\<in>set rs. last_done r = Inr True"
    and "store_episodes (ReplayBuffer_init N ks) rs = Inr rb"
  shows "ring_inv N ks rs rb"
  using assms(2,3)
proof (induction rs arbitrary: rb rule: rev_induct)
  case Nil
  then show ?case using ring_inv_init[of N ks] by simp
next
  case (snoc r rs)
  from snoc.prems(2) obtain rb0 where a: "store_episodes (ReplayBuffer_init N ks) rs = Inr rb0"
    and b: "store_episode rb0 r = Inr rb"
    by (auto simp: store_episodes_snoc split: sum.splits)
  from snoc.prems(1) have "\<forall>r\<in>set rs. last_done r = Inr True" and d: "last_done r = Inr True" by auto
  with snoc.IH a have "ring_inv N ks rs rb0" by blast
  from ring_inv_step[OF this assms(1) d b] show ?case .
qed

subsection \<open>The example run\<close>

lemmas store_eval = ReplayBuffer_init_def clear_def ex_keys_def ex_rollout_def store_episode_def
      store_key_def check_lengths_def last_done_def dd_get_def has_key_def

lemma ex_run:
  "store_episodes (ReplayBuffer_init 2 ex_keys) [ex_rollout 1, ex_rollout 2, ex_rollout 3] =
     Inr \<lparr>rb_size = 2, rb_keys = ex_keys, rb_idx = 1, rb_current_size = 3,
          rb_new_episode = True, rb_buffer = ex_store\<rparr>"
  by (simp add: store_eval ex_store_def)

lemma ex_contract: "ingestion_contract (ex_rollout x)"
  by (simp add: ingestion_contract_def ex_rollout_def)

lemma ex_done: "last_done (ex_rollout x) = Inr True"
  by (simp add: last_done_def ex_rollout_def)

section \<open>Capacity\<close>

text \<open>
  C1, as amended. Episodes are stored in a buffer of capacity \<open>N\<close> that started empty,
  each rollout closing its episode (its last \<^verbatim>\<open>done\<close> flag is true). When the calls
  return, \<^verbatim>\<open>_current_size\<close> is the number of episodes stored (it is not capped at the
  capacity), the cursor is that number modulo \<open>N\<close>, every tracked key holds
  \<open>min (number of episodes) N\<close> slots, episode \<open>i\<close> of the last \<open>N\<close> sits in slot
  \<open>i mod N\<close>, and once \<open>N\<close> episodes are stored the cursor points at the oldest of
  them, which the next write replaces.
\<close>

theorem store_episodes_ring:
  assumes "distinct ks" and "\<forall>r\<in>set rs. last_done r = Inr True"
    and "store_episodes (ReplayBuffer_init N ks) rs = Inr rb"
  shows "rb_current_size rb = length rs \<and> rb_idx rb = length rs mod N \<and>
         (\<forall>k\<in>set ks.
            length (dd_get (rb_buffer rb) k) = min (length rs) N \<and>
            (\<forall>i<length rs. length rs \<le> i + N \<longrightarrow>
               (rs ! i) k = Some (dd_get (rb_buffer rb) k ! (i mod N))) \<and>
            (0 < N \<and> N \<le> length rs \<longrightarrow>
               (rs ! (length rs - N)) k = Some (dd_get (rb_buffer rb) k ! rb_idx rb)))"
proof -
  from ring_inv_run[OF assms] have R: "ring_inv N ks rs rb" .
  then have cs: "rb_current_size rb = length rs" and ix: "rb_idx rb = length rs mod N"
    by (auto simp: ring_inv_def)
  have per: "length (dd_get (rb_buffer rb) k) = min (length rs) N \<and>
            (\<forall>i<length rs. length rs \<le> i + N \<longrightarrow>
               (rs ! i) k = Some (dd_get (rb_buffer rb) k ! (i mod N))) \<and>
            (0 < N \<and> N \<le> length rs \<longrightarrow>
               (rs ! (length rs - N)) k = Some (dd_get (rb_buffer rb) k ! rb_idx rb))"
    if k: "k \<in> set ks" for k
  proof -
    from R k have len: "length (dd_get (rb_buffer rb) k) = min (length rs) N"
      and win: "\<forall>i<length rs. length rs \<le> i + N \<longrightarrow>
               (rs ! i) k = Some (dd_get (rb_buffer rb) k ! (i mod N))"
      by (auto simp: ring_inv_def)
    have old: "(rs ! (length rs - N)) k = Some (dd_get (rb_buffer rb) k ! rb_idx rb)"
      if "0 < N" "N \<le> length rs"
    proof -
      have "length rs - N < length rs" "length rs \<le> (length rs - N) + N" using that by auto
      with win have "(rs ! (length rs - N)) k =
          Some (dd_get (rb_buffer rb) k ! ((length rs - N) mod N))" by blast
      moreover have "(length rs - N) mod N = length rs mod N"
        using that(2) by (simp add: le_mod_geq)
      ultimately show ?thesis using ix by simp
    qed
    show ?thesis using len win old by blast
  qed
  show ?thesis using cs ix per by blast
qed

theorem store_episodes_ring_witness:
  "store_episodes (ReplayBuffer_init 2 ex_keys) [ex_rollout 1, ex_rollout 2, ex_rollout 3] =
     Inr \<lparr>rb_size = 2, rb_keys = ex_keys, rb_idx = 1, rb_current_size = 3,
          rb_new_episode = True, rb_buffer = ex_store\<rparr> \<and>
   length (dd_get ex_store ''ob'') = 2 \<and>
   ex_rollout 3 ''ob'' = Some (dd_get ex_store ''ob'' ! 0) \<and>
   ex_rollout 2 ''ob'' = Some (dd_get ex_store ''ob'' ! 1)"
proof -
  have d: "distinct ex_keys" by (simp add: ex_keys_def)
  have a: "\<forall>r\<in>set [ex_rollout 1, ex_rollout 2, ex_rollout 3]. last_done r = Inr True"
    by (simp add: ex_done)
  have k: "''ob'' \<in> set ex_keys" by (simp add: ex_keys_def)
  let ?rs = "[ex_rollout 1, ex_rollout 2, ex_rollout 3]"
  from store_episodes_ring[OF d a ex_run] k
  have L: "length (dd_get ex_store ''ob'') = min (length ?rs) 2"
    and W: "\<And>i. i < length ?rs \<Longrightarrow> length ?rs \<le> i + 2 \<Longrightarrow>
           (?rs ! i) ''ob'' = Some (dd_get ex_store ''ob'' ! (i mod 2))"
    by auto
  from W[of 2] have w2: "ex_rollout 3 ''ob'' = Some (dd_get ex_store ''ob'' ! 0)" by simp
  from W[of 1] have w1: "ex_rollout 2 ''ob'' = Some (dd_get ex_store ''ob'' ! 1)" by simp
  from L w1 w2 show ?thesis using ex_run by simp
qed

text \<open>
  C1 as stated fails: in a buffer of capacity 1, two stored episodes leave
  \<^verbatim>\<open>_current_size\<close> at 2.
\<close>

theorem current_size_exceeds_capacity:
  "store_episodes (ReplayBuffer_init 1 ex_keys) [ex_rollout 1, ex_rollout 2] =
     Inr \<lparr>rb_size = 1, rb_keys = ex_keys, rb_idx = 0, rb_current_size = 2,
          rb_new_episode = True,
          rb_buffer =
            [(''ob'', [[Num 2, Num 3]]),
             (''ac'', [[Dict [(''default'', Num 2)]]]),
             (''rew'', [[Num 0]]),
             (''done'', [[Num 1]])]\<rparr>"
  by (simp add: store_eval)

text \<open>
  \<^verbatim>\<open>_new_episode\<close> is never cleared, so a rollout that does not close its episode
  leaves a slot that the next call does not continue: two such rollouts fill two slots
  of a buffer of capacity 1.
\<close>

lemma unclosed_rollouts_grow_store:
  "store_episodes (ReplayBuffer_init 1 [''ob'', ''ac'']) [open_rollout, open_rollout] =
     Inr \<lparr>rb_size = 1, rb_keys = [''ob'', ''ac''], rb_idx = 0, rb_current_size = 0,
          rb_new_episode = True,
          rb_buffer = [(''ob'', [[Num 0, Num 1], [Num 0, Num 1]]), (''ac'', [[Num 0], [Num 0]])]\<rparr>"
  by (simp add: store_eval open_rollout_def)

section \<open>Stored lengths\<close>

text \<open>
  C4. Rollouts under the ingestion contract are stored in a buffer that tracks \<^verbatim>\<open>ob\<close>
  and \<^verbatim>\<open>ac\<close> and started empty. The assertion of \<^verbatim>\<open>store_episode\<close> never fires;
  after every call that returns, every stored episode has one observation more than
  actions, and as many rewards and \<^verbatim>\<open>done\<close> flags as actions; and the calls do
  return when the capacity is positive and every rollout has the tracked keys and a
  last \<^verbatim>\<open>done\<close> flag with a truth value.
\<close>

theorem store_episode_length_invariant:
  assumes "distinct ks" and "''ob'' \<in> set ks" and "''ac'' \<in> set ks"
    and "\<forall>r\<in>set rs. ingestion_contract r"
  shows "store_episodes (ReplayBuffer_init N ks) rs \<noteq> Inl AssertionError \<and>
         (\<forall>rb. store_episodes (ReplayBuffer_init N ks) rs = Inr rb \<longrightarrow>
            episode_lengths_ok (rb_buffer rb)) \<and>
         (0 < N \<and> (\<forall>r\<in>set rs. (\<forall>k\<in>set ks. r k \<noteq> None) \<and> (\<exists>d. last_done r = Inr d)) \<longrightarrow>
            (\<exists>rb. store_episodes (ReplayBuffer_init N ks) rs = Inr rb))"
  using store_episodes_inv[OF store_inv_init assms] by (auto simp: store_inv_def)

theorem store_episode_length_invariant_witness:
  "store_episodes (ReplayBuffer_init 2 ex_keys) [ex_rollout 1, ex_rollout 2, ex_rollout 3] \<noteq>
     Inl AssertionError \<and>
   store_episodes (ReplayBuffer_init 2 ex_keys) [ex_rollout 1, ex_rollout 2, ex_rollout 3] =
     Inr \<lparr>rb_size = 2, rb_keys = ex_keys, rb_idx = 1, rb_current_size = 3,
          rb_new_episode = True, rb_buffer = ex_store\<rparr> \<and>
   episode_lengths_ok ex_store"
proof -
  have d: "distinct ex_keys" and o: "''ob'' \<in> set ex_keys" and a: "''ac'' \<in> set ex_keys"
    by (simp_all add: ex_keys_def)
  have c: "\<forall>r\<in>set [ex_rollout 1, ex_rollout 2, ex_rollout 3]. ingestion_contract r"
    by (simp add: ex_contract)
  from store_episode_length_invariant[OF d o a c, of 2] ex_run show ?thesis by simp
qed

section \<open>Sampling\<close>

subsection \<open>Draws, gathering and stacking\<close>

lemma try_map_Inr_iff: "try_map f xs = Inr ys \<longleftrightarrow> list_all2 (\<lambda>x y. f x = Inr y) xs ys"
proof (induction xs arbitrary: ys)
  case Nil
  then show ?case by auto
next
  case (Cons x xs)
  show ?case
  proof (cases ys)
    case Nil
    then show ?thesis by (auto simp: ebind_eq_Inr)
  next
    case (Cons y ys')
    then show ?thesis using Cons.IH[of ys'] by (auto simp: ebind_eq_Inr)
  qed
qed

lemma try_map_Cons_Inl: "f x = Inl e \<Longrightarrow> try_map f (x # xs) = Inl e"
  by simp




lemma gather_Nil [simp]: "gather eps [] = Inr []"
  by (simp add: gather_def)



lemma randint_array_empty_range:
  "hi \<le> lo \<Longrightarrow> randint_array lo hi n g = (if n = 0 then Inr ([], g) else Inl ValueError)"
  by (cases n) (simp_all add: randint_def)


lemma gather_keys_Inr:
  "gather_keys b ets = Inr tr \<longleftrightarrow>
     list_all2 (\<lambda>(k, eps) (k', vs). k' = k \<and> gather eps ets = Inr vs) b tr"
proof -
  have eq: "(\<lambda>x y. (case x of (k, eps) \<Rightarrow> ebind (gather eps ets) (\<lambda>vs. Inr (k, vs))) = Inr y) =
        (\<lambda>(k, eps) (k', vs). k' = k \<and> gather eps ets = Inr vs)"
    by (auto simp: fun_eq_iff ebind_eq_Inr)
  show ?thesis by (simp only: gather_keys_def try_map_Inr_iff eq)
qed


lemma gather_keys_Nil: "gather_keys b [] = Inr (map (\<lambda>(k, eps). (k, [])) b)"
  by (simp add: gather_keys_Inr list_all2_conv_all_nth case_prod_beta)



lemma stack_transitions_empty_column:
  "tr \<noteq> [] \<Longrightarrow> snd (hd tr) = [] \<Longrightarrow> stack_transitions tr = Inl IndexError"
  by (cases tr) (auto simp: stack_transitions_def stack_column_def)




section \<open>Empty sources\<close>

lemma scan_demos_no_match:
  "\<forall>d\<in>set folder. \<not> (d_is_file d \<and> endswith (d_path d) ''pkl'') \<Longrightarrow>
     scan_demos n folder demos i = demos"
  by (induction folder arbitrary: demos i) auto

lemma sample_empty:
  assumes "dd_get b ''ac'' = []"
  shows "sample_func b n g = Inl (if n = 0 then IndexError else ValueError)"
proof (cases n)
  case 0
  let ?b = "touch b ''ac''"
  have ne: "?b \<noteq> []" by (auto simp: touch_def has_key_def)
  let ?tr = "AList.update ''ob_next'' [] (map (\<lambda>(k, eps). (k, [])) ?b)"
  have t1: "?tr \<noteq> []" and t2: "snd (hd ?tr) = []"
    using ne by (cases ?b; auto split: prod.splits)+
  have "stack_transitions ?tr = Inl IndexError"
    by (rule stack_transitions_empty_column[OF t1 t2])
  then show ?thesis using 0
    by (simp add: sample_func_def Let_def gather_keys_Nil gather_next_def)
next
  case (Suc m)
  then show ?thesis using assms
    by (simp add: sample_func_def Let_def dd_get_touch randint_def)
qed

text \<open>
  C5, as amended. \<^verbatim>\<open>load_demonstrations\<close> on a directory with no file whose path ends
  in \<^verbatim>\<open>pkl\<close> returns and leaves the buffer as it was. \<^verbatim>\<open>sample(batch_size)\<close> on a
  buffer with no episode raises: \<open>ValueError\<close> from the draw of the episode indices
  when \<^verbatim>\<open>batch_size\<close> is positive, \<open>IndexError\<close> from \<^verbatim>\<open>v[0]\<close> in the stacking
  loop when it is 0.
\<close>

theorem empty_sources:
  "((\<forall>d\<in>set folder. \<not> (d_is_file d \<and> endswith (d_path d) ''pkl'')) \<longrightarrow>
      load_demonstrations fs rb folder num_demos = Inr rb) \<and>
   (dd_get (rb_buffer rb) ''ac'' = [] \<longrightarrow>
      sample rb n g = Inl (if n = 0 then IndexError else ValueError))"
  by (simp add: load_demonstrations_def scan_demos_no_match sample_def sample_empty)

theorem empty_sources_witness:
  "load_demonstrations Map.empty (ReplayBuffer_init 2 ex_keys)
     [\<lparr>d_path = ''notes.txt'', d_is_file = True\<rparr>, \<lparr>d_path = ''old.pkl'', d_is_file = False\<rparr>] 5 =
     Inr (ReplayBuffer_init 2 ex_keys) \<and>
   sample (ReplayBuffer_init 2 ex_keys) 0 [] = Inl IndexError \<and>
   sample (ReplayBuffer_init 2 ex_keys) 3 [] = Inl ValueError"
proof -
  have a: "\<forall>d\<in>set [\<lparr>d_path = ''notes.txt'', d_is_file = True\<rparr>,
                    \<lparr>d_path = ''old.pkl'', d_is_file = False\<rparr>].
             \<not> (d_is_file d \<and> endswith (d_path d) ''pkl'')"
    by (simp add: endswith_def)
  have b: "dd_get (rb_buffer (ReplayBuffer_init 2 ex_keys)) ''ac'' = []"
    by (simp add: ReplayBuffer_init_def clear_def dd_get_def)
  from empty_sources[of _ Map.empty "ReplayBuffer_init 2 ex_keys" 5 0 "[]"] a b
  have 1: "load_demonstrations Map.empty (ReplayBuffer_init 2 ex_keys)
     [\<lparr>d_path = ''notes.txt'', d_is_file = True\<rparr>, \<lparr>d_path = ''old.pkl'', d_is_file = False\<rparr>] 5 =
     Inr (ReplayBuffer_init 2 ex_keys)"
    and 2: "sample (ReplayBuffer_init 2 ex_keys) 0 [] = Inl IndexError"
    by auto
  from empty_sources[of "[]" Map.empty "ReplayBuffer_init 2 ex_keys" 5 3 "[]"] b
  have 3: "sample (ReplayBuffer_init 2 ex_keys) 3 [] = Inl ValueError" by simp
  from 1 2 3 show ?thesis by simp
qed

text \<open>
  C5 as stated fails: sampling one transition from a freshly constructed buffer raises
  \<open>ValueError\<close>.
\<close>

theorem sample_empty_buffer_raises:
  "sample (ReplayBuffer_init 2 ex_keys) 1 [] = Inl ValueError"
  by (simp add: sample_def sample_func_def ReplayBuffer_init_def clear_def touch_def has_key_def
      dd_get_def randint_def Let_def)

section \<open>Uniform sampling\<close>

subsection \<open>The draws\<close>








subsection \<open>What a returned batch holds\<close>





subsection \<open>When sampling returns\<close>












subsection \<open>The batch\<close>






section \<open>Loading demonstrations\<close>

lemma scan_demos_take:
  "i \<le> num_demos \<Longrightarrow>
     scan_demos num_demos folder demos i =
       demos @ take (nat (num_demos + 1 - i)) (demo_files folder)"
proof (induction folder arbitrary: demos i)
  case Nil
  then show ?case by (simp add: demo_files_def)
next
  case (Cons d ds)
  show ?case
  proof (cases "d_is_file d \<and> endswith (d_path d) ''pkl''")
    case True
    then have df: "demo_files (d # ds) = d_path d # demo_files ds" by (simp add: demo_files_def)
    show ?thesis
    proof (cases "i + 1 > num_demos")
      case True
      with Cons.prems have "nat (num_demos + 1 - i) = 1" by simp
      with True \<open>d_is_file d \<and> endswith (d_path d) ''pkl''\<close> df show ?thesis by simp
    next
      case False
      then have le: "i + 1 \<le> num_demos" by simp
      have "nat (num_demos + 1 - i) = Suc (nat (num_demos + 1 - (i + 1)))"
        using le by simp
      with Cons.IH[OF le, of "demos @ [d_path d]"] False
        \<open>d_is_file d \<and> endswith (d_path d) ''pkl''\<close> df
      show ?thesis by simp
    qed
  next
    case False
    then have "demo_files (d # ds) = demo_files ds" by (simp add: demo_files_def)
    with Cons.IH[OF Cons.prems, of demos] False Cons.prems show ?thesis by auto
  qed
qed

lemma replicate_update_last: "(replicate (Suc m) x)[m := y] = replicate m x @ [y]"
  by (induction m) simp_all

lemma done_vector:
  "0 < n \<Longrightarrow> (replicate n x)[n - Suc 0 := y] = replicate (n - Suc 0) x @ [y]"
  using replicate_update_last[of "n - Suc 0" x y] by simp

lemma demo_rollout_Inr:
  assumes "demo_rollout data = Inr r"
  shows "\<exists>obs actions rewards.
           data ''obs'' = Some obs \<and> data ''actions'' = Some actions \<and>
           data ''rewards'' = Some rewards \<and> actions \<noteq> [] \<and>
           r ''ob'' = Some obs \<and>
           r ''ac'' = Some (map (\<lambda>ac. Dict [(''default'', ac)]) actions) \<and>
           r ''rew'' = Some rewards \<and>
           r ''done'' = Some (replicate (length actions - 1) (Num 0) @ [Num 1])"
  using assms
  by (auto simp: demo_rollout_def done_vector split: option.splits if_splits)

lemma load_demos_iff:
  "load_demos fs rb paths = Inr rb' \<longleftrightarrow>
     (\<exists>rs. list_all2 (\<lambda>p r. \<exists>data. fs p = Some data \<and> demo_rollout data = Inr r) paths rs \<and>
           store_episodes rb rs = Inr rb')"
proof (induction paths arbitrary: rb)
  case Nil
  then show ?case by auto
next
  case (Cons p ps)
  show ?case
  proof
    assume "load_demos fs rb (p # ps) = Inr rb'"
    then obtain data r rb1 where d: "fs p = Some data" and dr: "demo_rollout data = Inr r"
      and s1: "store_episode rb r = Inr rb1" and rest: "load_demos fs rb1 ps = Inr rb'"
      by (auto simp: ebind_eq_Inr load_demo_def split: option.splits)
    from rest Cons.IH[of rb1] obtain rs where
      "list_all2 (\<lambda>p r. \<exists>data. fs p = Some data \<and> demo_rollout data = Inr r) ps rs"
      "store_episodes rb1 rs = Inr rb'" by blast
    with d dr s1 have
      "list_all2 (\<lambda>p r. \<exists>data. fs p = Some data \<and> demo_rollout data = Inr r) (p # ps) (r # rs) \<and>
       store_episodes rb (r # rs) = Inr rb'" by simp
    then show "\<exists>rs. list_all2 (\<lambda>p r. \<exists>data. fs p = Some data \<and> demo_rollout data = Inr r)
                 (p # ps) rs \<and> store_episodes rb rs = Inr rb'" by blast
  next
    assume "\<exists>rs. list_all2 (\<lambda>p r. \<exists>data. fs p = Some data \<and> demo_rollout data = Inr r)
                 (p # ps) rs \<and> store_episodes rb rs = Inr rb'"
    then obtain rs where
      l: "list_all2 (\<lambda>p r. \<exists>data. fs p = Some data \<and> demo_rollout data = Inr r) (p # ps) rs"
      and s: "store_episodes rb rs = Inr rb'" by blast
    from l obtain r rs' data where rs: "rs = r # rs'" and d: "fs p = Some data"
      and dr: "demo_rollout data = Inr r"
      and l': "list_all2 (\<lambda>p r. \<exists>data. fs p = Some data \<and> demo_rollout data = Inr r) ps rs'"
      by (auto simp: list_all2_Cons1)
    from s rs obtain rb1 where s1: "store_episode rb r = Inr rb1"
      and s2: "store_episodes rb1 rs' = Inr rb'" by (auto split: sum.splits)
    from l' s2 Cons.IH[of rb1] have "load_demos fs rb1 ps = Inr rb'" by blast
    with d dr s1 show "load_demos fs rb (p # ps) = Inr rb'" by (simp add: load_demo_def)
  qed
qed

text \<open>
  C6. For \<^verbatim>\<open>num_demos\<close> that is not negative, \<^verbatim>\<open>load_demonstrations\<close> selects
  the first \<^verbatim>\<open>num_demos + 1\<close> demonstration files of the directory, that is
  \<open>min (number of demonstration files) (num_demos + 1)\<close> files, and returns exactly when
  every selected file unpickles to a rollout and \<^verbatim>\<open>store_episode\<close> takes these
  rollouts in turn. The rollout of a file has the file's observations and rewards, its
  actions each wrapped as \<^verbatim>\<open>{"default": action}\<close>, and a \<^verbatim>\<open>done\<close> vector as long
  as the actions, zero but for a last 1.
\<close>

theorem load_demonstrations_files:
  assumes "0 \<le> num_demos"
  shows "scan_demos num_demos folder [] 0 = take (nat num_demos + 1) (demo_files folder) \<and>
         length (scan_demos num_demos folder [] 0) =
           min (length (demo_files folder)) (nat num_demos + 1) \<and>
         (load_demonstrations fs rb folder num_demos = Inr rb' \<longleftrightarrow>
            (\<exists>rs. list_all2 (\<lambda>p r. \<exists>data. fs p = Some data \<and> demo_rollout data = Inr r)
                    (take (nat num_demos + 1) (demo_files folder)) rs \<and>
                  store_episodes rb rs = Inr rb')) \<and>
         (demo_rollout data = Inr r \<longrightarrow>
            (\<exists>obs actions rewards.
               data ''obs'' = Some obs \<and> data ''actions'' = Some actions \<and>
               data ''rewards'' = Some rewards \<and> actions \<noteq> [] \<and>
               r ''ob'' = Some obs \<and>
               r ''ac'' = Some (map (\<lambda>ac. Dict [(''default'', ac)]) actions) \<and>
               r ''rew'' = Some rewards \<and>
               r ''done'' = Some (replicate (length actions - 1) (Num 0) @ [Num 1])))"
proof -
  have n: "nat (num_demos + 1 - 0) = nat num_demos + 1" using assms by simp
  have sc: "scan_demos num_demos folder [] 0 = take (nat num_demos + 1) (demo_files folder)"
    using scan_demos_take[of 0 num_demos folder "[]"] assms n by simp
  have len: "length (scan_demos num_demos folder [] 0) =
           min (length (demo_files folder)) (nat num_demos + 1)"
    by (simp add: sc)
  have ld: "load_demonstrations fs rb folder num_demos = Inr rb' \<longleftrightarrow>
            (\<exists>rs. list_all2 (\<lambda>p r. \<exists>data. fs p = Some data \<and> demo_rollout data = Inr r)
                    (take (nat num_demos + 1) (demo_files folder)) rs \<and>
                  store_episodes rb rs = Inr rb')"
    by (simp only: load_demonstrations_def sc load_demos_iff)
  show ?thesis using sc len ld demo_rollout_Inr[of data r] by blast
qed

lemma ex_demo_rollout: "demo_rollout (ex_demo x) = Inr (ex_rollout x)"
  by (simp add: demo_rollout_def ex_demo_def ex_rollout_def fun_eq_iff)

lemma ex_demo_files: "demo_files ex_folder = [''a.pkl'', ''b.pkl'', ''c.pkl'', ''d.pkl'']"
  by (simp add: demo_files_def ex_folder_def endswith_def)

theorem load_demonstrations_files_witness:
  "scan_demos 2 ex_folder [] 0 = [''a.pkl'', ''b.pkl'', ''c.pkl''] \<and>
   length (scan_demos 2 ex_folder [] 0) = 3 \<and>
   load_demonstrations ex_fs (ReplayBuffer_init 2 ex_keys) ex_folder 2 =
     Inr \<lparr>rb_size = 2, rb_keys = ex_keys, rb_idx = 1, rb_current_size = 3,
          rb_new_episode = True, rb_buffer = ex_store\<rparr>"
proof -
  have z: "(0::int) \<le> 2" by simp
  let ?rb' = "\<lparr>rb_size = 2, rb_keys = ex_keys, rb_idx = 1, rb_current_size = 3,
          rb_new_episode = True, rb_buffer = ex_store\<rparr>"
  note T = load_demonstrations_files[OF z, of ex_folder ex_fs "ReplayBuffer_init 2 ex_keys" ?rb'
      "ex_demo 1" "ex_rollout 1"]
  have tk: "take (nat 2 + 1) (demo_files ex_folder) = [''a.pkl'', ''b.pkl'', ''c.pkl'']"
    by (simp add: ex_demo_files)
  from T[THEN conjunct1] have a: "scan_demos 2 ex_folder [] 0 = [''a.pkl'', ''b.pkl'', ''c.pkl'']"
    by (simp only: tk)
  have l: "list_all2 (\<lambda>p r. \<exists>data. ex_fs p = Some data \<and> demo_rollout data = Inr r)
      [''a.pkl'', ''b.pkl'', ''c.pkl''] [ex_rollout 1, ex_rollout 2, ex_rollout 3]"
    by (simp add: ex_fs_def ex_demo_rollout)
  from T[THEN conjunct2, THEN conjunct2, THEN conjunct1] l ex_run
  have c: "load_demonstrations ex_fs (ReplayBuffer_init 2 ex_keys) ex_folder 2 = Inr ?rb'"
    unfolding tk by blast
  from a c show ?thesis by simp
qed

section \<open>Sampling with a learned reward\<close>


















section \<open>Hindsight experience replay\<close>

subsection \<open>One relabeling step\<close>




subsection \<open>The relabeling loop\<close>








subsection \<open>When the sampler returns\<close>





subsection \<open>The example runs\<close>






subsection \<open>Relabeled goals\<close>



subsection \<open>Recomputed rewards\<close>



end
